theory Spec2Isabelle
  imports Complex_Main "HOL-Library.Word" "HOL-Library.Sublist" "HOL-Library.Multiset"
    "HOL-Library.Product_Lexorder"
begin

section \<open>Allocation descriptors (faiss/gpu/GpuResources.cpp)\<close>

text \<open>
  Pointers (\<open>GpuResources*\<close>, \<open>cudaStream_t\<close>, \<open>void*\<close>) are 64-bit addresses, the null
  pointer is address 0. A device id is a C \<open>int\<close>, a size is a \<open>size_t\<close>.
\<close>

type_synonym ptr = "64 word"

definition nullptr :: ptr where
  "nullptr = 0"

text \<open>
  Modelled from the spec: the enumerations \<open>AllocType\<close> and \<open>MemorySpace\<close> are declared in
  GpuResources.h, which is not among the sources; their enumerators are the ones the data
  model lists and the two switch statements name. An object of enumeration type can hold
  a value that is none of the enumerators (the \<open>default\<close> branches are there for it); such
  a value is \<open>AllocType_unnamed n\<close> (\<open>MemorySpace_unnamed n\<close>), \<open>n\<close> telling these values
  apart.
\<close>

datatype AllocType =
    Other
  | FlatData
  | IVFLists
  | Quantizer
  | QuantizerPrecomputedCodes
  | TemporaryMemoryBuffer
  | TemporaryMemoryOverflow
  | AllocType_unnamed int

datatype MemorySpace =
    Temporary
  | Device
  | Unified
  | MemorySpace_unnamed int

fun allocTypeToString :: "AllocType \<Rightarrow> string" where
  "allocTypeToString Other = ''Other''"
| "allocTypeToString FlatData = ''FlatData''"
| "allocTypeToString IVFLists = ''IVFLists''"
| "allocTypeToString Quantizer = ''Quantizer''"
| "allocTypeToString QuantizerPrecomputedCodes = ''QuantizerPrecomputedCodes''"
| "allocTypeToString TemporaryMemoryBuffer = ''TemporaryMemoryBuffer''"
| "allocTypeToString TemporaryMemoryOverflow = ''TemporaryMemoryOverflow''"
| "allocTypeToString _ = ''Unknown''"

fun memorySpaceToString :: "MemorySpace \<Rightarrow> string" where
  "memorySpaceToString Temporary = ''Temporary''"
| "memorySpaceToString Device = ''Device''"
| "memorySpaceToString Unified = ''Unified''"
| "memorySpaceToString _ = ''Unknown''"

text \<open>The enumerators the switch statements name.\<close>

definition named_AllocTypes :: "AllocType list" where
  "named_AllocTypes = [Other, FlatData, IVFLists, Quantizer, QuantizerPrecomputedCodes,
     TemporaryMemoryBuffer, TemporaryMemoryOverflow]"

definition named_MemorySpaces :: "MemorySpace list" where
  "named_MemorySpaces = [Temporary, Device, Unified]"

text \<open>
  Modelled from the spec: \<open>struct AllocInfo\<close> and \<open>struct AllocRequest : AllocInfo\<close> are
  declared in GpuResources.h, which is not among the sources. The fields are the ones
  \<open>toString\<close> reads: \<open>type\<close>, \<open>device\<close>, \<open>space\<close>, \<open>stream\<close>, and \<open>size\<close> (here
  \<open>size_bytes\<close>) for a request.
\<close>

record AllocInfo =
  type :: AllocType
  device :: "32 word"
  space :: MemorySpace
  stream :: ptr

record AllocRequest = AllocInfo +
  size_bytes :: "64 word"

text \<open>
  \<open>operator<<\<close> of a default-constructed \<open>std::stringstream\<close> writes a number through
  the \<open>num_put\<close> facet of the global locale in force when the stream is built. The flags
  of the stream are the initial ones, so an \<open>int\<close> and a \<open>size_t\<close> are written in decimal,
  an \<open>int\<close> with a leading minus sign when negative. The \<open>numpunct\<close> facet of the locale
  decides the digit grouping: \<open>grouping\<close> gives the sizes of the digit groups from the
  right, the last size repeating, and \<open>thousands_sep\<close> is written between two groups.
  A size that is not positive or is \<open>CHAR_MAX\<close> ends the grouping; it is 0 here. With no
  sizes at all, as in the classic locale, there is no grouping.
\<close>

record numpunct =
  thousands_sep :: char
  grouping :: "nat list"

definition digit_char :: "nat \<Rightarrow> char" where
  "digit_char d = ''0123456789'' ! d"

fun decimal :: "nat \<Rightarrow> string" where
  "decimal n = (if n < 10 then [digit_char n] else decimal (n div 10) @ [digit_char (n mod 10)])"

declare decimal.simps [simp del]

text \<open>
  The digit groups of a number, from the right: \<open>ds\<close> holds the digits that are left, the
  last digit first, \<open>vec\<close> the sizes that are left and \<open>prev\<close> the size of the group before.
\<close>

function split_groups :: "nat list \<Rightarrow> nat \<Rightarrow> 'a list \<Rightarrow> 'a list list" where
  "split_groups vec prev ds =
     (let g = (case vec of [] \<Rightarrow> prev | x # _ \<Rightarrow> x) in
      if g = 0 \<or> length ds \<le> g then [ds]
      else take g ds # split_groups (tl vec) g (drop g ds))"
  by pat_completeness auto
termination
  by (relation "measure (\<lambda>(vec, prev, ds). length ds)") auto

declare split_groups.simps [simp del]

fun join :: "'a list \<Rightarrow> 'a list list \<Rightarrow> 'a list" where
  "join s [] = []"
| "join s [x] = x"
| "join s (x # y # ys) = x @ s @ join s (y # ys)"

definition put_digits :: "numpunct \<Rightarrow> string \<Rightarrow> string" where
  "put_digits L ds = rev (join [thousands_sep L] (split_groups (grouping L) 0 (rev ds)))"


definition show_int :: "numpunct \<Rightarrow> 32 word \<Rightarrow> string" where
  "show_int L i =
     (if sint i < 0 then CHR ''-'' # put_digits L (decimal (nat (- sint i)))
      else put_digits L (decimal (nat (sint i))))"

definition show_size_t :: "numpunct \<Rightarrow> 64 word \<Rightarrow> string" where
  "show_size_t L n = put_digits L (decimal (unat n))"



text \<open>
  Two locales: the classic one, and one that groups digits by three with a comma, as the
  locale en_US does. One request, the spec's example, with a null stream, and one text for
  a pointer: 0 for the null pointer, else the address in hexadecimal.
\<close>

definition classic :: numpunct where
  "classic = \<lparr>thousands_sep = CHR '','', grouping = []\<rparr>"

definition en_US :: numpunct where
  "en_US = \<lparr>thousands_sep = CHR '','', grouping = [3, 3]\<rparr>"







text \<open>
  Modelled from the spec: \<open>getCurrentDevice()\<close> (utils/DeviceUtils.h, not among the sources)
  reads the currently active device of the calling thread; the thread's device context is
  the record \<open>thread_ctx\<close>.
\<close>

record thread_ctx =
  current_device :: "32 word"

definition getCurrentDevice :: "thread_ctx \<Rightarrow> 32 word" where
  "getCurrentDevice c = current_device c"

text \<open>
  Modelled from the spec: the constructor \<open>AllocInfo(at, dev, sp, st)\<close> (GpuResources.h, not
  among the sources) initialises type, device, space and stream from its arguments.
\<close>

definition AllocInfo_ctor :: "AllocType \<Rightarrow> 32 word \<Rightarrow> MemorySpace \<Rightarrow> ptr \<Rightarrow> AllocInfo" where
  "AllocInfo_ctor t dev sp str = \<lparr>type = t, device = dev, space = sp, stream = str\<rparr>"

definition makeDevAlloc :: "thread_ctx \<Rightarrow> AllocType \<Rightarrow> ptr \<Rightarrow> AllocInfo" where
  "makeDevAlloc c t str = AllocInfo_ctor t (getCurrentDevice c) Device str"

definition makeTempAlloc :: "thread_ctx \<Rightarrow> AllocType \<Rightarrow> ptr \<Rightarrow> AllocInfo" where
  "makeTempAlloc c t str = AllocInfo_ctor t (getCurrentDevice c) Temporary str"

definition makeSpaceAlloc :: "thread_ctx \<Rightarrow> AllocType \<Rightarrow> MemorySpace \<Rightarrow> ptr \<Rightarrow> AllocInfo" where
  "makeSpaceAlloc c t sp str = AllocInfo_ctor t (getCurrentDevice c) sp str"

section \<open>GpuMemoryReservation\<close>

text \<open>
  The five members of a reservation. \<open>rsize\<close> is the member \<open>size\<close>.
\<close>

record GpuMemoryReservation =
  res :: ptr
  device :: "32 word"
  stream :: ptr
  data :: ptr
  rsize :: "64 word"

text \<open>
  Reservation objects live in a store, addressed by object: \<open>this\<close> and the argument
  \<open>m\<close> of a member function are addresses, and may be the same one. The call
  \<open>res->deallocMemory(device, data)\<close> is a call of a virtual function of the resource
  manager; the state keeps the calls made so far, in order, each with the resource it was
  made on.
\<close>

type_synonym obj = nat

type_synonym dealloc_call = "ptr \<times> 32 word \<times> ptr"

record state =
  objs :: "obj \<Rightarrow> GpuMemoryReservation"
  dealloc_calls :: "dealloc_call list"

datatype error = AssertionFailed | DeadObject

text \<open>
  Modelled from the spec: \<open>deallocMemory(device, pointer)\<close> is pure virtual in
  \<open>GpuResources\<close>; it returns a block to the manager it is called on. Here the call is
  recorded.
\<close>

definition deallocMemory :: "ptr \<Rightarrow> 32 word \<Rightarrow> ptr \<Rightarrow> state \<Rightarrow> state" where
  "deallocMemory r dev p \<sigma> = \<sigma>\<lparr>dealloc_calls := dealloc_calls \<sigma> @ [(r, dev, p)]\<rparr>"

text \<open>Assignment to one member of the object at an address.\<close>

definition set_res :: "obj \<Rightarrow> ptr \<Rightarrow> state \<Rightarrow> state" where
  "set_res a v \<sigma> = \<sigma>\<lparr>objs := (objs \<sigma>)(a := (objs \<sigma> a)\<lparr>res := v\<rparr>)\<rparr>"

definition set_device :: "obj \<Rightarrow> 32 word \<Rightarrow> state \<Rightarrow> state" where
  "set_device a v \<sigma> = \<sigma>\<lparr>objs := (objs \<sigma>)(a := (objs \<sigma> a)\<lparr>device := v\<rparr>)\<rparr>"

definition set_stream :: "obj \<Rightarrow> ptr \<Rightarrow> state \<Rightarrow> state" where
  "set_stream a v \<sigma> = \<sigma>\<lparr>objs := (objs \<sigma>)(a := (objs \<sigma> a)\<lparr>stream := v\<rparr>)\<rparr>"

definition set_data :: "obj \<Rightarrow> ptr \<Rightarrow> state \<Rightarrow> state" where
  "set_data a v \<sigma> = \<sigma>\<lparr>objs := (objs \<sigma>)(a := (objs \<sigma> a)\<lparr>data := v\<rparr>)\<rparr>"

definition set_rsize :: "obj \<Rightarrow> 64 word \<Rightarrow> state \<Rightarrow> state" where
  "set_rsize a v \<sigma> = \<sigma>\<lparr>objs := (objs \<sigma>)(a := (objs \<sigma> a)\<lparr>rsize := v\<rparr>)\<rparr>"

text \<open>The empty state: what the default constructor builds.\<close>

definition empty_reservation :: GpuMemoryReservation where
  "empty_reservation = \<lparr>res = nullptr, device = 0, stream = nullptr, data = nullptr, rsize = 0\<rparr>"

definition default_ctor :: "obj \<Rightarrow> state \<Rightarrow> state" where
  "default_ctor this \<sigma> = \<sigma>\<lparr>objs := (objs \<sigma>)(this := empty_reservation)\<rparr>"

definition ctor :: "obj \<Rightarrow> ptr \<Rightarrow> 32 word \<Rightarrow> ptr \<Rightarrow> ptr \<Rightarrow> 64 word \<Rightarrow> state \<Rightarrow> state" where
  "ctor this r dev str p sz \<sigma> =
     \<sigma>\<lparr>objs := (objs \<sigma>)(this := \<lparr>res = r, device = dev, stream = str, data = p, rsize = sz\<rparr>)\<rparr>"

text \<open>The move constructor: ten assignments, in the order of the source.\<close>

definition move_ctor :: "obj \<Rightarrow> obj \<Rightarrow> state \<Rightarrow> state" where
  "move_ctor this m \<sigma>0 =
     (let \<sigma>1 = set_res this (res (objs \<sigma>0 m)) \<sigma>0;
          \<sigma>2 = set_res m nullptr \<sigma>1;
          \<sigma>3 = set_device this (device (objs \<sigma>2 m)) \<sigma>2;
          \<sigma>4 = set_device m 0 \<sigma>3;
          \<sigma>5 = set_stream this (stream (objs \<sigma>4 m)) \<sigma>4;
          \<sigma>6 = set_stream m nullptr \<sigma>5;
          \<sigma>7 = set_data this (data (objs \<sigma>6 m)) \<sigma>6;
          \<sigma>8 = set_data m nullptr \<sigma>7;
          \<sigma>9 = set_rsize this (rsize (objs \<sigma>8 m)) \<sigma>8
      in set_rsize m 0 \<sigma>9)"

definition release :: "obj \<Rightarrow> state \<Rightarrow> state" where
  "release this \<sigma>0 =
     (if res (objs \<sigma>0 this) \<noteq> nullptr then
        (let \<sigma>1 = deallocMemory (res (objs \<sigma>0 this)) (device (objs \<sigma>0 this))
                    (data (objs \<sigma>0 this)) \<sigma>0;
             \<sigma>2 = set_res this nullptr \<sigma>1;
             \<sigma>3 = set_device this 0 \<sigma>2;
             \<sigma>4 = set_stream this nullptr \<sigma>3;
             \<sigma>5 = set_data this nullptr \<sigma>4
         in set_rsize this 0 \<sigma>5)
      else \<sigma>0)"

text \<open>
  Modelled from the spec: \<open>FAISS_ASSERT\<close> (impl/FaissAssert.h, not among the sources) is a
  fatal assertion: when its condition is false the process aborts, here the error
  \<open>AssertionFailed\<close>.
\<close>

definition FAISS_ASSERT :: "bool \<Rightarrow> error + unit" where
  "FAISS_ASSERT X = (if X then Inr () else Inl AssertionFailed)"

text \<open>Move assignment: the assertion, \<open>release()\<close>, then the ten assignments.\<close>

definition move_assign :: "obj \<Rightarrow> obj \<Rightarrow> state \<Rightarrow> error + state" where
  "move_assign this m \<sigma> =
     (case FAISS_ASSERT
        (\<not> (res (objs \<sigma> this) \<noteq> nullptr \<and> res (objs \<sigma> this) = res (objs \<sigma> m) \<and>
            device (objs \<sigma> this) = device (objs \<sigma> m) \<and>
            data (objs \<sigma> this) = data (objs \<sigma> m))) of
        Inl e \<Rightarrow> Inl e
      | Inr _ \<Rightarrow>
        (let \<sigma>0 = release this \<sigma>;
             \<sigma>1 = set_res this (res (objs \<sigma>0 m)) \<sigma>0;
             \<sigma>2 = set_res m nullptr \<sigma>1;
             \<sigma>3 = set_device this (device (objs \<sigma>2 m)) \<sigma>2;
             \<sigma>4 = set_device m 0 \<sigma>3;
             \<sigma>5 = set_stream this (stream (objs \<sigma>4 m)) \<sigma>4;
             \<sigma>6 = set_stream m nullptr \<sigma>5;
             \<sigma>7 = set_data this (data (objs \<sigma>6 m)) \<sigma>6;
             \<sigma>8 = set_data m nullptr \<sigma>7;
             \<sigma>9 = set_rsize this (rsize (objs \<sigma>8 m)) \<sigma>8
         in Inr (set_rsize m 0 \<sigma>9)))"

text \<open>The destructor; the object is dead afterwards.\<close>

definition dtor :: "obj \<Rightarrow> state \<Rightarrow> state" where
  "dtor this \<sigma> =
     (if res (objs \<sigma> this) \<noteq> nullptr
      then deallocMemory (res (objs \<sigma> this)) (device (objs \<sigma> this)) (data (objs \<sigma> this)) \<sigma>
      else \<sigma>)"

text \<open>
  \<open>GpuResources::allocMemoryHandle(req)\<close> builds a reservation of the resource manager it
  is called on (\<open>r\<close>, the \<open>this\<close> of the call) from the request and from the pointer \<open>p\<close>
  that the pure virtual \<open>allocMemory(req)\<close> returns.
\<close>

definition allocMemoryHandle :: "obj \<Rightarrow> ptr \<Rightarrow> AllocRequest \<Rightarrow> ptr \<Rightarrow> state \<Rightarrow> state" where
  "allocMemoryHandle this r req p \<sigma> =
     ctor this r (AllocInfo.device req) (AllocInfo.stream req) p (size_bytes req) \<sigma>"

subsection \<open>Sequences of operations\<close>

text \<open>
  A program is a sequence of operations on reservation objects. A constructor builds its
  object at the next unused address; \<open>live\<close> lists the objects built and not yet
  destroyed. An operation on an object that is not alive is undefined behaviour in C++,
  here the error \<open>DeadObject\<close>.
\<close>

datatype op =
    Construct ptr "32 word" ptr ptr "64 word"
  | AllocMemoryHandle ptr AllocRequest ptr
  | DefaultConstruct
  | MoveConstruct obj
  | MoveAssign obj obj
  | Release obj
  | Destroy obj

record program =
  st :: state
  live :: "obj list"
  fresh :: obj

definition built :: "state \<Rightarrow> program \<Rightarrow> program" where
  "built \<sigma> P = \<lparr>st = \<sigma>, live = fresh P # live P, fresh = Suc (fresh P)\<rparr>"

fun exec :: "op \<Rightarrow> program \<Rightarrow> error + program" where
  "exec (Construct r dev str p sz) P = Inr (built (ctor (fresh P) r dev str p sz (st P)) P)"
| "exec (AllocMemoryHandle r req p) P = Inr (built (allocMemoryHandle (fresh P) r req p (st P)) P)"
| "exec DefaultConstruct P = Inr (built (default_ctor (fresh P) (st P)) P)"
| "exec (MoveConstruct m) P =
     (if m \<in> set (live P) then Inr (built (move_ctor (fresh P) m (st P)) P) else Inl DeadObject)"
| "exec (MoveAssign d m) P =
     (if d \<in> set (live P) \<and> m \<in> set (live P)
      then (case move_assign d m (st P) of Inl e \<Rightarrow> Inl e | Inr \<sigma> \<Rightarrow> Inr (P\<lparr>st := \<sigma>\<rparr>))
      else Inl DeadObject)"
| "exec (Release a) P =
     (if a \<in> set (live P) then Inr (P\<lparr>st := release a (st P)\<rparr>) else Inl DeadObject)"
| "exec (Destroy a) P =
     (if a \<in> set (live P) then Inr (P\<lparr>st := dtor a (st P), live := removeAll a (live P)\<rparr>)
      else Inl DeadObject)"

text \<open>
  Running a sequence stops at the first error; the result is the error, if any, and the
  program state reached.
\<close>

fun run :: "op list \<Rightarrow> program \<Rightarrow> error option \<times> program" where
  "run [] P = (None, P)"
| "run (x # xs) P = (case exec x P of Inl e \<Rightarrow> (Some e, P) | Inr P' \<Rightarrow> run xs P')"

definition start :: program where
  "start = \<lparr>st = \<lparr>objs = (\<lambda>_. empty_reservation), dealloc_calls = []\<rparr>, live = [], fresh = 0\<rparr>"

text \<open>
  The allocations a sequence hands to reservations that have an owning resource, one
  entry for each time: resource, device and data pointer.
\<close>

fun handed :: "op list \<Rightarrow> dealloc_call list" where
  "handed [] = []"
| "handed (Construct r dev str p sz # xs) =
     (if r \<noteq> nullptr then (r, dev, p) # handed xs else handed xs)"
| "handed (AllocMemoryHandle r req p # xs) =
     (if r \<noteq> nullptr then (r, AllocInfo.device req, p) # handed xs else handed xs)"
| "handed (_ # xs) = handed xs"

text \<open>The allocation an object holds, if its owning resource is not null.\<close>

definition holding :: "GpuMemoryReservation \<Rightarrow> dealloc_call multiset" where
  "holding r = (if res r \<noteq> nullptr then {#(res r, device r, data r)#} else {#})"

definition outstanding :: "program \<Rightarrow> dealloc_call multiset" where
  "outstanding P = (\<Sum>a\<leftarrow>live P. holding (objs (st P) a))"

text \<open>
  In a well-formed program state no object is listed twice and every live object was
  built before the next unused address. \<open>balance\<close> adds the allocations still held by live
  objects to the ones already returned.
\<close>

definition live_ok :: "program \<Rightarrow> bool" where
  "live_ok P = (distinct (live P) \<and> (\<forall>a\<in>set (live P). a < fresh P))"

definition balance :: "program \<Rightarrow> dealloc_call multiset" where
  "balance P = outstanding P + mset (dealloc_calls (st P))"

subsection \<open>Example states and programs\<close>

text \<open>
  Two reservations of resource 7 on device 0: in \<open>two\<close> they hold the blocks at 100 and
  200, in \<open>twins\<close> both hold the block at 100.
\<close>

definition two :: state where
  "two = ctor 1 7 0 9 200 16 (ctor 0 7 0 5 100 8 (st start))"

definition twins :: state where
  "twins = ctor 1 7 0 9 100 16 (ctor 0 7 0 5 100 8 (st start))"

definition lifetimes :: "op list" where
  "lifetimes = [Construct 1 0 0 100 8,
     AllocMemoryHandle 1 \<lparr>type = TemporaryMemoryBuffer, AllocInfo.device = 0, space = Temporary,
       AllocInfo.stream = 0, size_bytes = 8\<rparr> 200,
     MoveAssign 0 1, MoveConstruct 0, Release 2, DefaultConstruct,
     Destroy 0, Destroy 1, Destroy 2, Destroy 3]"

section \<open>Warp-level top-k selection (utils/warpselect)\<close>

text \<open>
  Modelled from the spec: the only source of the selector is the instantiation
  \<open>WARP_SELECT_IMPL(float, false, 1024, 8)\<close>; the macro and the kernel it instantiates
  (utils/warpselect/WarpSelectImpl.cuh) are not among the sources. A specialization is
  compiled for an element type, a direction flag, a maximum k and a per-thread fan-out.
  Scores are real-valued.
\<close>

record specialization =
  direction_flag :: bool
  maximum_k :: nat
  fan_out :: nat

definition part_000 :: specialization where
  "part_000 = \<lparr>direction_flag = False, maximum_k = 1024, fan_out = 8\<rparr>"

text \<open>
  Modelled from the spec: the selection direction is smallest-k or largest-k; a candidate
  is a pair of a value and its original index in the row.
\<close>

datatype direction = Smallest | Largest

type_synonym 'a cand = "'a \<times> nat"

definition candidates :: "'a list \<Rightarrow> 'a cand list" where
  "candidates row = zip row [0..<length row]"

text \<open>
  Modelled from the spec: candidates are ordered by value in the selection direction,
  equal values by original index ascending. \<open>key\<close> maps a candidate to a pair that is
  smaller, in the lexicographic order of pairs, the better the candidate is.
\<close>

definition key :: "direction \<Rightarrow> 'a::linordered_ab_group_add cand \<Rightarrow> 'a \<times> nat" where
  "key dir c = (case dir of Smallest \<Rightarrow> (fst c, snd c) | Largest \<Rightarrow> (- fst c, snd c))"

text \<open>
  Modelled from the spec: a bounded structure holding up to k candidates, kept in the
  order of the selection direction: the k best of the candidates merged into it.
\<close>

definition best_k ::
  "direction \<Rightarrow> nat \<Rightarrow> 'a::linordered_ab_group_add cand list \<Rightarrow> 'a cand list" where
  "best_k dir k cs = take k (sort_key (key dir) cs)"

text \<open>
  Modelled from the spec: the running threshold is the value of the warp's current
  k-th best candidate, once the warp-wide structure holds k candidates. An incoming
  candidate whose value is worse than the threshold cannot be in the final top-k and is
  rejected.
\<close>

definition worse :: "direction \<Rightarrow> 'a::linordered_ab_group_add \<Rightarrow> 'a \<Rightarrow> bool" where
  "worse dir v t = (case dir of Smallest \<Rightarrow> t < v | Largest \<Rightarrow> v < t)"

definition threshold :: "nat \<Rightarrow> 'a cand list \<Rightarrow> 'a option" where
  "threshold k wq = (if 0 < k \<and> length wq = k then Some (fst (last wq)) else None)"

definition rejected ::
  "direction \<Rightarrow> nat \<Rightarrow> 'a::linordered_ab_group_add cand list \<Rightarrow> 'a cand \<Rightarrow> bool" where
  "rejected dir k wq c = (case threshold k wq of None \<Rightarrow> False | Some t \<Rightarrow> worse dir (fst c) t)"

text \<open>
  Modelled from the spec: a warp has one warp-wide structure (\<open>queue\<close>) and, for each of
  its threads, a candidate buffer of fixed capacity, the per-thread fan-out.
\<close>

record 'a warp =
  queue :: "'a cand list"
  buffers :: "'a cand list list"

text \<open>
  Modelled from the spec: within a warp the per-thread buffers are merged into the
  warp-wide structure, which keeps up to k candidates; the buffers are empty afterwards.
\<close>

definition flush :: "direction \<Rightarrow> nat \<Rightarrow> 'a::linordered_ab_group_add warp \<Rightarrow> 'a warp" where
  "flush dir k w =
     \<lparr>queue = best_k dir k (queue w @ concat (buffers w)), buffers = map (\<lambda>_. []) (buffers w)\<rparr>"

text \<open>
  Modelled from the spec: the warp strides across its slice, so the candidate with index
  \<open>i\<close> is read by thread \<open>i mod n\<close> of the \<open>n\<close> threads of the warp. A candidate that is not
  rejected goes to the buffer of its thread; when that buffer has reached the fan-out
  \<open>q\<close>, the buffers are merged.
\<close>

definition offer ::
  "direction \<Rightarrow> nat \<Rightarrow> nat \<Rightarrow> 'a::linordered_ab_group_add warp \<Rightarrow> 'a cand \<Rightarrow> 'a warp" where
  "offer dir q k w c =
     (if rejected dir k (queue w) c then w
      else
        (let l = snd c mod length (buffers w);
             w' = w\<lparr>buffers := (buffers w)[l := buffers w ! l @ [c]]\<rparr>
         in if q \<le> length (buffers w' ! l) then flush dir k w' else w'))"

text \<open>
  Modelled from the spec: a warp of \<open>n\<close> threads reduces its slice to a warp-wide
  structure of up to k candidates: every candidate of the slice is offered, then the
  buffers are merged a last time.
\<close>

definition warp_select ::
  "direction \<Rightarrow> nat \<Rightarrow> nat \<Rightarrow> nat \<Rightarrow> 'a::linordered_ab_group_add cand list \<Rightarrow> 'a cand list" where
  "warp_select dir q k n cs =
     queue (flush dir k (foldl (offer dir q k) \<lparr>queue = [], buffers = replicate n []\<rparr> cs))"

text \<open>
  Modelled from the spec: the threads of a block are partitioned into warps, each with
  its slice of the row: consecutive runs of \<open>lanes\<close> candidates go to the warps in turn.
\<close>

record geometry =
  warps :: nat
  lanes :: nat

definition slice :: "geometry \<Rightarrow> nat \<Rightarrow> 'a cand list \<Rightarrow> 'a cand list" where
  "slice g w cs = filter (\<lambda>c. (snd c div lanes g) mod warps g = w) cs"

text \<open>
  Modelled from the spec: the warp-wide structures of all warps of the block are merged
  into one block-wide top-k structure, whose values and original indices are written out.
\<close>

definition block_select ::
  "direction \<Rightarrow> nat \<Rightarrow> geometry \<Rightarrow> nat \<Rightarrow> 'a::linordered_ab_group_add list \<Rightarrow> 'a cand list" where
  "block_select dir q g k row =
     best_k dir k (concat (map (\<lambda>w. warp_select dir q k (lanes g) (slice g w (candidates row)))
       [0..<warps g]))"

text \<open>
  Modelled from the spec: the reference the selector is compared with is a full sort of
  the row in the selection direction, of which the first k values are taken.
\<close>

definition reference_topk :: "direction \<Rightarrow> nat \<Rightarrow> 'a::linorder list \<Rightarrow> 'a list" where
  "reference_topk dir k row =
     take k (case dir of Smallest \<Rightarrow> sort row | Largest \<Rightarrow> rev (sort row))"

text \<open>
  The invariant of a warp that has been offered the candidates \<open>seen\<close>: the k best of
  the warp-wide structure and the buffers together are the k best of \<open>seen\<close>.
\<close>

definition warp_inv ::
  "direction \<Rightarrow> nat \<Rightarrow> nat \<Rightarrow> 'a::linordered_ab_group_add warp \<Rightarrow> 'a cand list \<Rightarrow> bool" where
  "warp_inv dir k n w seen =
     (length (buffers w) = n \<and> sorted (map (key dir) (queue w)) \<and> length (queue w) \<le> k \<and>
      take k (sort (map (key dir) (queue w) @ map (key dir) (concat (buffers w)))) =
      take k (sort (map (key dir) seen)))"

text \<open>The row of the spec's scenario and the block it is selected with.\<close>

definition scenario :: "real list" where
  "scenario = [5, 1, 9, 9, 3, 7]"

definition small_block :: geometry where
  "small_block = \<lparr>warps = 2, lanes = 4\<rparr>"

section \<open>Properties of the descriptors\<close>

lemmas example_simps = two_def twins_def ctor_def start_def nullptr_def empty_reservation_def

text \<open>
  Claim C9. \<open>allocTypeToString\<close> and \<open>memorySpaceToString\<close> are total: for every value of
  the enumeration, named or not, they return a non-empty string, and every value that is
  not one of the named enumerators is mapped to \<open>Unknown\<close>.
\<close>

theorem enum_toString_total:
  "allocTypeToString t \<noteq> [] \<and> memorySpaceToString s \<noteq> [] \<and>
   (t \<notin> set named_AllocTypes \<longrightarrow> allocTypeToString t = ''Unknown'') \<and>
   (s \<notin> set named_MemorySpaces \<longrightarrow> memorySpaceToString s = ''Unknown'')"
  by (cases t; cases s; simp add: named_AllocTypes_def named_MemorySpaces_def)

theorem enum_toString_total_witness:
  "AllocType_unnamed 7 \<notin> set named_AllocTypes \<and> MemorySpace_unnamed 3 \<notin> set named_MemorySpaces \<and>
   allocTypeToString (AllocType_unnamed 7) = ''Unknown'' \<and>
   memorySpaceToString (MemorySpace_unnamed 3) = ''Unknown''"
  using enum_toString_total [of "AllocType_unnamed 7" "MemorySpace_unnamed 3"]
  by (simp add: named_AllocTypes_def named_MemorySpaces_def)













lemmas number_simps = show_int_def show_size_t_def put_digits_def digit_char_def
  split_groups.simps decimal.simps




text \<open>Some device ids, in both locales.\<close>

lemma show_int_examples:
  "show_int classic 42 = ''42''" "show_int classic (- 7) = ''-7''"
  "show_int classic (- 2147483648) = ''-2147483648''"
  "show_int en_US (- 2147483648) = ''-2,147,483,648''"
  "show_int en_US 999 = ''999''" "show_int en_US 1000 = ''1,000''"
  "show_int \<lparr>thousands_sep = CHR ''.'', grouping = [3, 2]\<rparr> 123456789 = ''12.34.56.789''"
  "show_int \<lparr>thousands_sep = CHR ''.'', grouping = [3, 0]\<rparr> 123456789 = ''123456.789''"
  by (simp_all add: classic_def en_US_def number_simps)

text \<open>
  Claim C6. The three convenience constructors take the device from \<open>getCurrentDevice\<close>
  (they have no device parameter), and set the space to \<open>Device\<close>, to \<open>Temporary\<close> and to
  the caller's space; type and stream are the caller's.
\<close>

theorem make_alloc_current_device:
  "makeDevAlloc c t str =
     \<lparr>type = t, AllocInfo.device = getCurrentDevice c, space = Device, AllocInfo.stream = str\<rparr> \<and>
   makeTempAlloc c t str =
     \<lparr>type = t, AllocInfo.device = getCurrentDevice c, space = Temporary, AllocInfo.stream = str\<rparr> \<and>
   makeSpaceAlloc c t sp str =
     \<lparr>type = t, AllocInfo.device = getCurrentDevice c, space = sp, AllocInfo.stream = str\<rparr>"
  by (simp add: makeDevAlloc_def makeTempAlloc_def makeSpaceAlloc_def AllocInfo_ctor_def)

section \<open>Properties of the reservation\<close>

lemmas setters = set_res_def set_device_def set_stream_def set_data_def set_rsize_def

text \<open>The member functions in closed form, also when \<open>this\<close> and \<open>m\<close> are one object.\<close>

lemma move_ctor_eq:
  "move_ctor this m \<sigma> = \<sigma>\<lparr>objs := (objs \<sigma>)(this := objs \<sigma> m, m := empty_reservation)\<rparr>"
  by (cases "this = m") (auto simp: move_ctor_def setters empty_reservation_def Let_def fun_eq_iff)

lemma release_eq:
  "release this \<sigma> =
     (if res (objs \<sigma> this) \<noteq> nullptr
      then \<sigma>\<lparr>objs := (objs \<sigma>)(this := empty_reservation),
             dealloc_calls := dealloc_calls \<sigma> @
               [(res (objs \<sigma> this), device (objs \<sigma> this), data (objs \<sigma> this))]\<rparr>
      else \<sigma>)"
  by (auto simp: release_def deallocMemory_def setters empty_reservation_def Let_def fun_eq_iff)

lemma move_assign_eq:
  "move_assign this m \<sigma> =
     (if res (objs \<sigma> this) \<noteq> nullptr \<and> res (objs \<sigma> this) = res (objs \<sigma> m) \<and>
         device (objs \<sigma> this) = device (objs \<sigma> m) \<and> data (objs \<sigma> this) = data (objs \<sigma> m)
      then Inl AssertionFailed
      else Inr (\<sigma>\<lparr>objs := (objs \<sigma>)(this := objs \<sigma> m, m := empty_reservation),
                  dealloc_calls := dealloc_calls \<sigma> @
                    (if res (objs \<sigma> this) \<noteq> nullptr
                     then [(res (objs \<sigma> this), device (objs \<sigma> this), data (objs \<sigma> this))]
                     else [])\<rparr>))"
  by (cases "this = m")
     (auto simp: move_assign_def FAISS_ASSERT_def release_eq setters empty_reservation_def Let_def
        fun_eq_iff)

lemma release_twice: "release r (release r \<sigma>) = release r \<sigma>"
  by (simp add: release_eq empty_reservation_def)

lemma release_funpow: "(release r ^^ Suc n) \<sigma> = release r \<sigma>"
  by (induction n) (simp_all add: release_twice)

text \<open>
  Claim C2. Move assignment \<open>d = std::move(s)\<close> fails the assertion when \<open>d\<close> has a
  resource and \<open>d\<close> and \<open>s\<close> have the same resource, device and data pointer. Otherwise it
  calls \<open>deallocMemory\<close> once for what \<open>d\<close> held, if \<open>d\<close> had a resource, and makes no other
  call; afterwards \<open>d\<close> has the five members \<open>s\<close> had and \<open>s\<close> is in the empty state (for one
  and the same object, which then had no resource: it is in the empty state).
\<close>

theorem move_assign_spec:
  "(res (objs \<sigma> d) \<noteq> nullptr \<and> res (objs \<sigma> d) = res (objs \<sigma> s) \<and>
      device (objs \<sigma> d) = device (objs \<sigma> s) \<and> data (objs \<sigma> d) = data (objs \<sigma> s)
    \<longrightarrow> move_assign d s \<sigma> = Inl AssertionFailed) \<and>
   (\<not> (res (objs \<sigma> d) \<noteq> nullptr \<and> res (objs \<sigma> d) = res (objs \<sigma> s) \<and>
      device (objs \<sigma> d) = device (objs \<sigma> s) \<and> data (objs \<sigma> d) = data (objs \<sigma> s))
    \<longrightarrow> move_assign d s \<sigma> =
          Inr (\<sigma>\<lparr>objs := (objs \<sigma>)(d := objs \<sigma> s, s := empty_reservation),
                 dealloc_calls := dealloc_calls \<sigma> @
                   (if res (objs \<sigma> d) \<noteq> nullptr
                    then [(res (objs \<sigma> d), device (objs \<sigma> d), data (objs \<sigma> d))]
                    else [])\<rparr>))"
  by (simp only: move_assign_eq) simp

theorem move_assign_spec_witness:
  "(res (objs twins 0) \<noteq> nullptr \<and> res (objs twins 0) = res (objs twins 1) \<and>
      device (objs twins 0) = device (objs twins 1) \<and> data (objs twins 0) = data (objs twins 1)) \<and>
   move_assign 0 1 twins = Inl AssertionFailed \<and>
   \<not> (res (objs two 0) \<noteq> nullptr \<and> res (objs two 0) = res (objs two 1) \<and>
      device (objs two 0) = device (objs two 1) \<and> data (objs two 0) = data (objs two 1)) \<and>
   move_assign 0 1 two =
     Inr (two\<lparr>objs := (objs two)(0 := objs two 1, 1 := empty_reservation),
              dealloc_calls := [(7, 0, 100)]\<rparr>)"
  using move_assign_spec [of twins 0 1] move_assign_spec [of two 0 1]
  by (simp add: example_simps)

text \<open>
  Claim C3. Move construction of a new object from \<open>m\<close> gives the new object the five
  members \<open>m\<close> had, leaves \<open>m\<close> in the empty state, changes no other object and calls
  \<open>deallocMemory\<close> not at all.
\<close>

theorem move_ctor_spec:
  "this \<noteq> m \<longrightarrow>
     objs (move_ctor this m \<sigma>) this = objs \<sigma> m \<and>
     objs (move_ctor this m \<sigma>) m = empty_reservation \<and>
     (\<forall>a. a \<noteq> this \<and> a \<noteq> m \<longrightarrow> objs (move_ctor this m \<sigma>) a = objs \<sigma> a) \<and>
     dealloc_calls (move_ctor this m \<sigma>) = dealloc_calls \<sigma>"
  by (simp add: move_ctor_eq)

theorem move_ctor_spec_witness:
  "(2::obj) \<noteq> 1 \<and>
   objs (move_ctor 2 1 two) 2 = \<lparr>res = 7, device = 0, stream = 9, data = 200, rsize = 16\<rparr> \<and>
   objs (move_ctor 2 1 two) 1 = empty_reservation \<and>
   dealloc_calls (move_ctor 2 1 two) = []"
  using move_ctor_spec [of 2 1 two]
  by (simp add: example_simps)

text \<open>
  Claim C4. \<open>release\<close> on a reservation with a resource calls \<open>deallocMemory\<close> once, on that
  resource with the reservation's device and data pointer, and resets the reservation to
  the empty state; on a reservation without a resource, a default-constructed one among
  them, it changes nothing. Releasing again changes nothing: any number of calls has the
  effect of the first.
\<close>

theorem release_spec:
  "(res (objs \<sigma> r) \<noteq> nullptr \<longrightarrow>
      release r \<sigma> = \<sigma>\<lparr>objs := (objs \<sigma>)(r := empty_reservation),
        dealloc_calls := dealloc_calls \<sigma> @
          [(res (objs \<sigma> r), device (objs \<sigma> r), data (objs \<sigma> r))]\<rparr>) \<and>
   (res (objs \<sigma> r) = nullptr \<longrightarrow> release r \<sigma> = \<sigma>) \<and>
   release r (default_ctor r \<sigma>) = default_ctor r \<sigma> \<and>
   release r (release r \<sigma>) = release r \<sigma> \<and>
   (release r ^^ Suc n) \<sigma> = release r \<sigma>"
proof -
  have a: "res (objs \<sigma> r) \<noteq> nullptr \<longrightarrow>
      release r \<sigma> = \<sigma>\<lparr>objs := (objs \<sigma>)(r := empty_reservation),
        dealloc_calls := dealloc_calls \<sigma> @
          [(res (objs \<sigma> r), device (objs \<sigma> r), data (objs \<sigma> r))]\<rparr>"
    by (simp add: release_eq)
  have b: "res (objs \<sigma> r) = nullptr \<longrightarrow> release r \<sigma> = \<sigma>"
    by (simp add: release_eq)
  have c: "release r (default_ctor r \<sigma>) = default_ctor r \<sigma>"
    by (simp add: release_eq default_ctor_def empty_reservation_def)
  show ?thesis
    using a b c release_twice release_funpow by blast
qed

theorem release_spec_witness:
  "res (objs two 0) \<noteq> nullptr \<and> res (objs (release 0 two) 0) = nullptr \<and>
   release 0 two =
     two\<lparr>objs := (objs two)(0 := empty_reservation), dealloc_calls := [(7, 0, 100)]\<rparr> \<and>
   release 0 (release 0 two) = release 0 two"
  using release_spec [of two 0 0] release_spec [of "release 0 two" 0 0]
  by (simp add: example_simps)

text \<open>
  Claim C5. When neither \<open>d\<close> nor \<open>s\<close> has an owning resource, \<open>d = std::move(s)\<close> passes the
  assertion and calls \<open>deallocMemory\<close> not at all; afterwards neither has a resource: \<open>s\<close>
  is in the empty state, and \<open>d\<close> has the members \<open>s\<close> had, so it is in the empty state
  when \<open>s\<close> was.
\<close>

theorem move_assign_empty:
  "res (objs \<sigma> d) = nullptr \<and> res (objs \<sigma> s) = nullptr \<longrightarrow>
     move_assign d s \<sigma> = Inr (\<sigma>\<lparr>objs := (objs \<sigma>)(d := objs \<sigma> s, s := empty_reservation)\<rparr>) \<and>
     res (((objs \<sigma>)(d := objs \<sigma> s, s := empty_reservation)) d) = nullptr \<and>
     ((objs \<sigma>)(d := objs \<sigma> s, s := empty_reservation)) s = empty_reservation \<and>
     (objs \<sigma> s = empty_reservation \<longrightarrow>
        ((objs \<sigma>)(d := objs \<sigma> s, s := empty_reservation)) d = empty_reservation)"
  by (simp add: move_assign_eq empty_reservation_def)

theorem move_assign_empty_witness:
  "res (objs two 4) = nullptr \<and> res (objs two 5) = nullptr \<and>
   move_assign 4 5 two = Inr two"
  using move_assign_empty [of two 4 5]
  by (simp add: example_simps fun_upd_idem)

text \<open>
  Claim C10. Self-move-assignment \<open>r = std::move(r)\<close> of a reservation with an owning
  resource fails the assertion; only a reservation without one passes it, and is then in
  the empty state.
\<close>

theorem self_move_assign:
  "(res (objs \<sigma> r) \<noteq> nullptr \<longrightarrow> move_assign r r \<sigma> = Inl AssertionFailed) \<and>
   (res (objs \<sigma> r) = nullptr \<longrightarrow>
      move_assign r r \<sigma> = Inr (\<sigma>\<lparr>objs := (objs \<sigma>)(r := empty_reservation)\<rparr>))"
  by (simp add: move_assign_eq)

theorem self_move_assign_witness:
  "res (objs two 0) \<noteq> nullptr \<and> move_assign 0 0 two = Inl AssertionFailed \<and>
   res (objs two 5) = nullptr \<and>
   move_assign 5 5 two = Inr (two\<lparr>objs := (objs two)(5 := empty_reservation)\<rparr>)"
  using self_move_assign [of two 0] self_move_assign [of two 5]
  by (simp add: example_simps)

subsection \<open>Sequences of operations\<close>

text \<open>
  Each operation keeps the balance: what live objects hold plus what has been returned
  grows by exactly the allocation the operation hands over.
\<close>

lemma holding_sum_other:
  "a \<notin> set xs \<Longrightarrow> (\<Sum>x\<leftarrow>xs. holding ((g(a := v)) x)) = (\<Sum>x\<leftarrow>xs. holding (g x))"
  by (induction xs) auto

lemma holding_sum_upd:
  "distinct xs \<Longrightarrow> a \<in> set xs \<Longrightarrow>
   (\<Sum>x\<leftarrow>xs. holding ((g(a := v)) x)) + holding (g a) = (\<Sum>x\<leftarrow>xs. holding (g x)) + holding v"
proof (induction xs)
  case Nil
  then show ?case by simp
next
  case (Cons x xs)
  show ?case
  proof (cases "x = a")
    case True
    with Cons.prems have "a \<notin> set xs" by simp
    then show ?thesis using True
      by (simp add: holding_sum_other fun_upd_same ac_simps del: fun_upd_apply)
  next
    case False
    with Cons have "(\<Sum>x\<leftarrow>xs. holding ((g(a := v)) x)) + holding (g a)
        = (\<Sum>x\<leftarrow>xs. holding (g x)) + holding v" by simp
    then show ?thesis using False by (simp add: add.assoc)
  qed
qed

lemma holding_sum_removeAll:
  "distinct xs \<Longrightarrow> a \<in> set xs \<Longrightarrow>
   (\<Sum>x\<leftarrow>removeAll a xs. holding (g x)) + holding (g a) = (\<Sum>x\<leftarrow>xs. holding (g x))"
proof (induction xs)
  case Nil
  then show ?case by simp
next
  case (Cons x xs)
  show ?case
  proof (cases "x = a")
    case True
    with Cons.prems have "a \<notin> set xs" by simp
    then show ?thesis using True by (simp add: add.commute)
  next
    case False
    with Cons have "(\<Sum>x\<leftarrow>removeAll a xs. holding (g x)) + holding (g a) = (\<Sum>x\<leftarrow>xs. holding (g x))"
      by simp
    then show ?thesis using False by (simp add: add.assoc)
  qed
qed

lemma holding_empty [simp]: "holding empty_reservation = {#}"
  by (simp add: holding_def empty_reservation_def)

lemma exec_live_ok: "exec x P = Inr P' \<Longrightarrow> live_ok P \<Longrightarrow> live_ok P'"
  by (cases x) (auto simp: live_ok_def built_def less_Suc_eq distinct_removeAll split: if_splits sum.splits)

lemma exec_balance:
  assumes "exec x P = Inr P'" and "live_ok P"
  shows "balance P' = balance P + mset (handed [x])"
proof -
  have d: "distinct (live P)" and f: "fresh P \<notin> set (live P)"
    using assms(2) by (auto simp: live_ok_def)
  let ?o = "objs (st P)"
  let ?out = "\<Sum>x\<leftarrow>live P. holding (?o x)"
  note [simp del] = fun_upd_apply
  show ?thesis
  proof (cases x)
    case (Construct r dev str p sz)
    with assms have P': "P' = built (ctor (fresh P) r dev str p sz (st P)) P" by simp
    show ?thesis using f
      by (simp add: P' Construct balance_def outstanding_def built_def ctor_def holding_sum_other
          fun_upd_same) (simp add: holding_def)
  next
    case (AllocMemoryHandle r req p)
    with assms have P': "P' = built (allocMemoryHandle (fresh P) r req p (st P)) P" by simp
    show ?thesis using f
      by (simp add: P' AllocMemoryHandle balance_def outstanding_def built_def ctor_def
          allocMemoryHandle_def holding_sum_other fun_upd_same) (simp add: holding_def)
  next
    case DefaultConstruct
    with assms have P': "P' = built (default_ctor (fresh P) (st P)) P" by simp
    show ?thesis using f
      by (simp add: P' DefaultConstruct balance_def outstanding_def built_def default_ctor_def
          holding_sum_other fun_upd_same)
  next
    case (MoveConstruct m)
    with assms have m: "m \<in> set (live P)" and P': "P' = built (move_ctor (fresh P) m (st P)) P"
      by (auto split: if_splits)
    from m f have ne: "fresh P \<noteq> m" by auto
    let ?g = "?o(fresh P := ?o m)"
    have "(\<Sum>x\<leftarrow>live P. holding ((?g(m := empty_reservation)) x)) + holding (?g m)
          = (\<Sum>x\<leftarrow>live P. holding (?g x)) + holding empty_reservation"
      by (rule holding_sum_upd [OF d m])
    then have "(\<Sum>x\<leftarrow>live P. holding ((?g(m := empty_reservation)) x)) + holding (?o m) = ?out"
      using ne f by (simp add: holding_sum_other fun_upd_other)
    then show ?thesis using ne
      by (simp add: P' MoveConstruct balance_def outstanding_def built_def move_ctor_eq
          fun_upd_other fun_upd_same ac_simps)
  next
    case (MoveAssign t m)
    with assms obtain \<sigma> where t: "t \<in> set (live P)" and m: "m \<in> set (live P)"
      and ma: "move_assign t m (st P) = Inr \<sigma>" and P': "P' = P\<lparr>st := \<sigma>\<rparr>"
      by (auto split: if_splits sum.splits)
    let ?g = "?o(t := ?o m)"
    from ma have \<sigma>: "\<sigma> = st P\<lparr>objs := ?g(m := empty_reservation),
          dealloc_calls := dealloc_calls (st P) @
            (if res (?o t) \<noteq> nullptr then [(res (?o t), device (?o t), data (?o t))] else [])\<rparr>"
      by (simp add: move_assign_eq split: if_splits)
    have ob: "objs (st P') = ?g(m := empty_reservation)" and lv: "live P' = live P"
      and dc: "mset (dealloc_calls (st P')) = mset (dealloc_calls (st P)) + holding (?o t)"
      by (simp_all add: P' \<sigma> holding_def)
    from ma have tm: "t = m \<Longrightarrow> holding (?o t) = {#}"
      by (auto simp: move_assign_eq holding_def split: if_splits)
    have 1: "(\<Sum>x\<leftarrow>live P. holding ((?g(m := empty_reservation)) x)) + holding (?g m)
          = (\<Sum>x\<leftarrow>live P. holding (?g x))"
      using holding_sum_upd [OF d m, of ?g empty_reservation] by simp
    have 2: "(\<Sum>x\<leftarrow>live P. holding (?g x)) + holding (?o t) = ?out + holding (?o m)"
      by (rule holding_sum_upd [OF d t])
    have "(\<Sum>x\<leftarrow>live P. holding ((?g(m := empty_reservation)) x)) + holding (?o t) = ?out"
    proof (cases "t = m")
      case True
      with 1 2 tm show ?thesis by (simp add: fun_upd_same)
    next
      case False
      then have gm: "?g m = ?o m" by (simp add: fun_upd_other)
      let ?A = "\<Sum>x\<leftarrow>live P. holding ((?g(m := empty_reservation)) x)"
      have "?A + holding (?o t) + holding (?o m) = (?A + holding (?g m)) + holding (?o t)"
        by (simp add: gm ac_simps)
      also have "\<dots> = (\<Sum>x\<leftarrow>live P. holding (?g x)) + holding (?o t)"
        by (simp only: 1)
      also have "\<dots> = ?out + holding (?o m)"
        by (rule 2)
      finally have "?A + holding (?o t) + holding (?o m) = ?out + holding (?o m)" .
      then show ?thesis by simp
    qed
    then show ?thesis
      by (simp add: MoveAssign balance_def outstanding_def ob dc lv ac_simps)
  next
    case (Release a)
    with assms have a: "a \<in> set (live P)" and P': "P' = P\<lparr>st := release a (st P)\<rparr>"
      by (auto split: if_splits)
    have "(\<Sum>x\<leftarrow>live P. holding ((?o(a := empty_reservation)) x)) + holding (?o a) = ?out"
      using holding_sum_upd [OF d a, of ?o empty_reservation] by simp
    moreover have "objs (release a (st P)) = ?o(a := empty_reservation) \<or>
        objs (release a (st P)) = ?o \<and> holding (?o a) = {#}"
      by (simp add: release_eq holding_def)
    moreover have "mset (dealloc_calls (release a (st P))) = mset (dealloc_calls (st P)) + holding (?o a)"
      by (simp add: release_eq holding_def)
    ultimately show ?thesis
      by (auto simp: P' Release balance_def outstanding_def ac_simps)
  next
    case (Destroy a)
    with assms have a: "a \<in> set (live P)"
      and P': "P' = P\<lparr>st := dtor a (st P), live := removeAll a (live P)\<rparr>"
      by (auto split: if_splits)
    have "(\<Sum>x\<leftarrow>removeAll a (live P). holding (?o x)) + holding (?o a) = ?out"
      by (rule holding_sum_removeAll [OF d a])
    moreover have "objs (dtor a (st P)) = ?o"
      by (simp add: dtor_def deallocMemory_def)
    moreover have "mset (dealloc_calls (dtor a (st P))) = mset (dealloc_calls (st P)) + holding (?o a)"
      by (simp add: dtor_def deallocMemory_def holding_def)
    ultimately show ?thesis
      by (simp add: P' Destroy balance_def outstanding_def ac_simps)
  qed
qed

lemma handed_Cons: "mset (handed (x # xs)) = mset (handed [x]) + mset (handed xs)"
  by (cases x) auto

lemma run_complete:
  "run ops P = (None, P') \<Longrightarrow> live_ok P \<Longrightarrow>
   live_ok P' \<and> balance P' = balance P + mset (handed ops)"
proof (induction ops arbitrary: P)
  case Nil
  then show ?case by simp
next
  case (Cons x xs)
  from Cons.prems(1) obtain Q where x: "exec x P = Inr Q" and r: "run xs Q = (None, P')"
    by (auto split: sum.splits)
  from x Cons.prems(2) have Q: "live_ok Q" and b: "balance Q = balance P + mset (handed [x])"
    by (auto intro: exec_live_ok exec_balance)
  from Cons.IH [OF r Q] show ?case
    by (simp add: b handed_Cons [of x xs] ac_simps)
qed

lemma run_partial:
  "run ops P = (e, P') \<Longrightarrow> live_ok P \<Longrightarrow> balance P' \<subseteq># balance P + mset (handed ops)"
proof (induction ops arbitrary: P)
  case Nil
  then show ?case by simp
next
  case (Cons x xs)
  show ?case
  proof (cases "exec x P")
    case (Inl err)
    with Cons.prems(1) have "P' = P" by simp
    then show ?thesis by simp
  next
    case (Inr Q)
    with Cons.prems(1) have r: "run xs Q = (e, P')" by simp
    from Inr Cons.prems(2) have Q: "live_ok Q" and b: "balance Q = balance P + mset (handed [x])"
      by (auto intro: exec_live_ok exec_balance)
    from Cons.IH [OF r Q] show ?thesis
      by (simp add: b handed_Cons [of x xs] ac_simps)
  qed
qed

lemma start_ok: "live_ok start" "balance start = {#}"
  by (simp_all add: live_ok_def balance_def outstanding_def start_def)

lemma calls_le_balance: "mset (dealloc_calls (st P)) \<subseteq># balance P"
  by (simp add: balance_def)

text \<open>
  Claim C1, as amended. For every sequence of operations on live reservation objects,
  started with no object: on every path, also when a move assignment fails the assertion
  and the process aborts, \<open>deallocMemory\<close> has been called with a given resource, device
  and data pointer at most as often as an allocation with these and a non-null resource
  was handed to a constructor. When the sequence runs to its end without failing the
  assertion and every object has been destroyed, it has been called exactly as often: once
  for an allocation handed to one reservation.
\<close>

theorem reservation_returns:
  "(\<forall>a. count_list (dealloc_calls (st (snd (run ops start)))) a \<le> count_list (handed ops) a) \<and>
   (fst (run ops start) = None \<and> live (snd (run ops start)) = [] \<longrightarrow>
    (\<forall>a. count_list (dealloc_calls (st (snd (run ops start)))) a = count_list (handed ops) a))"
proof -
  obtain e P where r: "run ops start = (e, P)" by (cases "run ops start")
  have "balance P \<subseteq># mset (handed ops)"
    using run_partial [OF r start_ok(1)] by (simp add: start_ok)
  with calls_le_balance [of P] have "mset (dealloc_calls (st P)) \<subseteq># mset (handed ops)"
    by (rule subset_mset.order_trans)
  then have 1: "\<forall>a. count_list (dealloc_calls (st P)) a \<le> count_list (handed ops) a"
    by (metis count_mset mset_subset_eq_count)
  have 2: "\<forall>a. count_list (dealloc_calls (st P)) a = count_list (handed ops) a"
    if "e = None" "live P = []"
  proof -
    from r that have "balance P = mset (handed ops)"
      using run_complete [of ops start P] by (simp add: start_ok)
    with that have "mset (dealloc_calls (st P)) = mset (handed ops)"
      by (simp add: balance_def outstanding_def)
    then show ?thesis by (metis count_mset)
  qed
  from 1 2 show ?thesis by (simp add: r)
qed

theorem reservation_returns_witness:
  "fst (run lifetimes start) = None \<and> live (snd (run lifetimes start)) = [] \<and>
   count_list (dealloc_calls (st (snd (run lifetimes start)))) (1, 0, 100) = 1 \<and>
   count_list (dealloc_calls (st (snd (run lifetimes start)))) (1, 0, 200) = 1"
proof -
  have h: "fst (run lifetimes start) = None \<and> live (snd (run lifetimes start)) = []"
    unfolding lifetimes_def by code_simp
  have "count_list (handed lifetimes) (1, 0, 100) = 1"
    and "count_list (handed lifetimes) (1, 0, 200) = 1"
    unfolding lifetimes_def by code_simp+
  with h reservation_returns [of lifetimes] show ?thesis by simp
qed

text \<open>
  Claim C1 as stated fails. A reservation holding the block at 100 is move-assigned to
  itself: the assertion fails, the process aborts, and the block has not been returned.
  Two reservations are built from the same block and destroyed: the block is returned
  twice.
\<close>

theorem reservation_returns_counterexample:
  "fst (run [Construct 1 0 0 100 8, MoveAssign 0 0] start) = Some AssertionFailed \<and>
   count_list (dealloc_calls (st (snd (run [Construct 1 0 0 100 8, MoveAssign 0 0] start))))
     (1, 0, 100) = 0 \<and>
   fst (run [Construct 1 0 0 100 8, Construct 1 0 0 100 8, Destroy 0, Destroy 1] start) = None \<and>
   count_list (dealloc_calls (st (snd
     (run [Construct 1 0 0 100 8, Construct 1 0 0 100 8, Destroy 0, Destroy 1] start))))
     (1, 0, 100) = 2"
  by code_simp

section \<open>Properties of the selector\<close>

subsection \<open>The k smallest elements of a list\<close>

lemma take_insort:
  "take k (insort y S) = take k (insort y (take k S))"
proof (induction S arbitrary: k)
  case Nil
  then show ?case by simp
next
  case (Cons x S)
  show ?case
  proof (cases k)
    case 0
    then show ?thesis by simp
  next
    case (Suc j)
    show ?thesis
    proof (cases "y \<le> x")
      case True
      then show ?thesis using Suc by (cases j) simp_all
    next
      case False
      then show ?thesis using Suc by (simp add: Cons.IH [of j, symmetric])
    qed
  qed
qed

lemma sort_cong_mset: "mset xs = mset ys \<Longrightarrow> sort xs = sort ys"
  by (rule properties_for_sort) simp_all

lemma topk_cong_mset: "mset xs = mset ys \<Longrightarrow> take k (sort xs) = take k (sort ys)"
  using sort_cong_mset [of xs ys] by simp

lemma sort_snoc: "sort (xs @ [c]) = insort c (sort xs)"
  by (rule properties_for_sort) (simp_all add: sorted_insort)

lemma topk_snoc:
  assumes h: "take k (sort xs) = take k (sort ys)"
  shows "take k (sort (xs @ [c])) = take k (sort (ys @ [c]))"
proof -
  have "take k (sort (xs @ [c])) = take k (insort c (take k (sort xs)))"
    unfolding sort_snoc by (rule take_insort)
  also have "\<dots> = take k (insort c (take k (sort ys)))"
    by (simp only: h)
  also have "\<dots> = take k (sort (ys @ [c]))"
    unfolding sort_snoc by (rule take_insort [symmetric])
  finally show ?thesis .
qed

lemma topk_append:
  "take k (sort xs) = take k (sort ys) \<Longrightarrow> take k (sort (xs @ zs)) = take k (sort (ys @ zs))"
proof (induction zs arbitrary: xs ys)
  case Nil
  then show ?case by simp
next
  case (Cons z zs)
  from Cons.prems have "take k (sort (xs @ [z])) = take k (sort (ys @ [z]))"
    by (rule topk_snoc)
  from Cons.IH [OF this] show ?case by simp
qed

lemma topk_idem: "take k (sort (take k (sort xs))) = take k (sort xs)"
  by (simp add: sorted_wrt_take sorted_sort_id)

lemma topk_merge_left:
  "take k (sort (take k (sort xs) @ ys)) = take k (sort (xs @ ys))"
  by (rule topk_append) (rule topk_idem)

lemma topk_merge_right:
  "take k (sort (xs @ take k (sort ys))) = take k (sort (xs @ ys))"
proof -
  have "take k (sort (xs @ take k (sort ys))) = take k (sort (take k (sort ys) @ xs))"
    by (rule topk_cong_mset) simp
  also have "\<dots> = take k (sort (ys @ xs))" by (rule topk_merge_left)
  also have "\<dots> = take k (sort (xs @ ys))" by (rule topk_cong_mset) simp
  finally show ?thesis .
qed

lemma topk_full:
  assumes "sorted ws" and "length ws = k" and "\<forall>w\<in>set ws. w \<le> c"
  shows "take k (sort (ws @ [c])) = ws"
proof -
  from assms have "sorted (ws @ [c])" by (simp add: sorted_append)
  then have "sort (ws @ [c]) = ws @ [c]" by (rule sorted_sort_id)
  with assms(2) show ?thesis by simp
qed

lemma topk_reject:
  assumes "sorted ws" and "length ws = k" and "\<forall>w\<in>set ws. w \<le> c"
    and inv: "take k (sort (ws @ bs)) = take k (sort S)"
  shows "take k (sort (ws @ bs)) = take k (sort (S @ [c]))"
proof -
  have "take k (sort (S @ [c])) = take k (sort ((ws @ bs) @ [c]))"
    using inv by (intro topk_append) simp
  also have "\<dots> = take k (sort ((ws @ [c]) @ bs))"
    by (rule topk_cong_mset) simp
  also have "\<dots> = take k (sort (take k (sort (ws @ [c])) @ bs))"
    by (rule topk_merge_left [symmetric])
  also have "\<dots> = take k (sort (ws @ bs))"
    using assms(1-3) by (simp add: topk_full)
  finally show ?thesis by simp
qed

lemma topk_accept:
  assumes inv: "take k (sort (ws @ bs)) = take k (sort S)"
    and "mset bs' = add_mset c (mset bs)"
  shows "take k (sort (ws @ bs')) = take k (sort (S @ [c]))"
proof -
  have "take k (sort (ws @ bs')) = take k (sort ((ws @ bs) @ [c]))"
    using assms(2) by (intro topk_cong_mset) simp
  also have "\<dots> = take k (sort (S @ [c]))"
    using inv by (rule topk_append)
  finally show ?thesis .
qed

subsection \<open>One warp\<close>

lemma key_sort: "map (key dir) (sort_key (key dir) cs) = sort (map (key dir) cs)"
  by (rule properties_for_sort [symmetric]) simp_all

lemma best_k_key: "map (key dir) (best_k dir k cs) = take k (sort (map (key dir) cs))"
  by (simp add: best_k_def take_map [symmetric] key_sort)

lemma inj_key: "inj (key dir)"
  by (rule injI) (auto simp: key_def prod_eq_iff split: direction.splits)

lemma worse_key: "worse dir v t \<Longrightarrow> key dir (t, i) \<le> key dir (v, j)"
  by (cases dir) (simp_all add: worse_def key_def less_eq_prod_def)

lemma sorted_le_last: "sorted xs \<Longrightarrow> x \<in> set xs \<Longrightarrow> x \<le> last xs"
  by (induction xs) auto

lemma rejected_bound:
  assumes "rejected dir k wq c" and "sorted (map (key dir) wq)"
  shows "length wq = k \<and> (\<forall>x\<in>set (map (key dir) wq). x \<le> key dir c)"
proof -
  from assms(1) have k: "0 < k" "length wq = k" and w: "worse dir (fst c) (fst (last wq))"
    by (auto simp: rejected_def threshold_def split: if_splits option.splits)
  from k have ne: "wq \<noteq> []" by auto
  have "key dir (fst (last wq), snd (last wq)) \<le> key dir (fst c, snd c)"
    using w by (rule worse_key)
  then have l: "key dir (last wq) \<le> key dir c" by simp
  have "x \<le> key dir c" if "x \<in> set (map (key dir) wq)" for x
  proof -
    from assms(2) that have "x \<le> last (map (key dir) wq)" by (rule sorted_le_last)
    also have "\<dots> = key dir (last wq)" using ne by (simp add: last_map)
    finally show ?thesis using l by simp
  qed
  with k show ?thesis by blast
qed

lemma concat_cleared: "concat (map (\<lambda>_. []) bs) = []"
  by (induction bs) simp_all

lemma mset_concat_update:
  "l < length bs \<Longrightarrow> mset (concat (bs[l := bs ! l @ [c]])) = add_mset c (mset (concat bs))"
proof (induction bs arbitrary: l)
  case Nil
  then show ?case by simp
next
  case (Cons b bs)
  then show ?case by (cases l) simp_all
qed

lemma flush_inv:
  assumes "warp_inv dir k n w seen"
  shows "warp_inv dir k n (flush dir k w) seen"
proof -
  have "take k (sort (take k (sort (map (key dir) (queue w @ concat (buffers w))))))
        = take k (sort (map (key dir) seen))"
    using assms by (simp add: topk_idem warp_inv_def)
  then show ?thesis
    using assms
    by (simp add: warp_inv_def flush_def best_k_key concat_cleared sorted_wrt_take)
      (simp add: best_k_def)
qed

lemma offer_inv:
  assumes n: "0 < n" and inv: "warp_inv dir k n w seen"
  shows "warp_inv dir k n (offer dir q k w c) (seen @ [c])"
proof (cases "rejected dir k (queue w) c")
  case True
  from inv have s: "sorted (map (key dir) (queue w))" by (simp add: warp_inv_def)
  from rejected_bound [OF True s]
  have "length (map (key dir) (queue w)) = k"
    and "\<forall>x\<in>set (map (key dir) (queue w)). x \<le> key dir c" by simp_all
  with s have "take k (sort (map (key dir) (queue w) @ map (key dir) (concat (buffers w))))
      = take k (sort (map (key dir) seen @ [key dir c]))"
    using inv by (intro topk_reject) (simp_all add: warp_inv_def)
  then show ?thesis using True inv by (simp add: offer_def warp_inv_def)
next
  case False
  define l where "l = snd c mod length (buffers w)"
  define w' where "w' = w\<lparr>buffers := (buffers w)[l := buffers w ! l @ [c]]\<rparr>"
  from n inv have l: "l < length (buffers w)" by (simp add: l_def warp_inv_def)
  have m: "mset (map (key dir) (concat (buffers w'))) =
        add_mset (key dir c) (mset (map (key dir) (concat (buffers w))))"
    using mset_concat_update [OF l, of c] by (simp add: w'_def)
  have i: "take k (sort (map (key dir) (queue w) @ map (key dir) (concat (buffers w))))
      = take k (sort (map (key dir) seen))"
    using inv by (simp add: warp_inv_def)
  have "take k (sort (map (key dir) (queue w) @ map (key dir) (concat (buffers w'))))
      = take k (sort (map (key dir) seen @ [key dir c]))"
    by (rule topk_accept [OF i m])
  with inv have w': "warp_inv dir k n w' (seen @ [c])"
    by (simp add: warp_inv_def w'_def)
  have "offer dir q k w c = (if q \<le> length (buffers w' ! l) then flush dir k w' else w')"
    using False by (simp add: offer_def Let_def l_def w'_def)
  with w' show ?thesis by (simp add: flush_inv)
qed

lemma foldl_offer_inv:
  "0 < n \<Longrightarrow> warp_inv dir k n w seen \<Longrightarrow>
   warp_inv dir k n (foldl (offer dir q k) w cs) (seen @ cs)"
proof (induction cs arbitrary: w seen)
  case Nil
  then show ?case by simp
next
  case (Cons c cs)
  from Cons.prems have "warp_inv dir k n (offer dir q k w c) (seen @ [c])"
    by (rule offer_inv)
  from Cons.IH [OF Cons.prems(1) this] show ?case by simp
qed

lemma warp_select_key:
  assumes "0 < n"
  shows "map (key dir) (warp_select dir q k n cs) = take k (sort (map (key dir) cs))"
proof -
  let ?w0 = "\<lparr>queue = [], buffers = replicate n []\<rparr> :: 'a warp"
  have "concat (replicate n ([] :: 'a cand list)) = []" by (induction n) simp_all
  then have "warp_inv dir k n ?w0 []" by (simp add: warp_inv_def)
  from foldl_offer_inv [OF assms this, of q cs]
  have "warp_inv dir k n (foldl (offer dir q k) ?w0 cs) cs" by simp
  then show ?thesis
    by (simp add: warp_select_def flush_def best_k_key warp_inv_def)
qed

subsection \<open>The block\<close>

lemma topk_concat:
  "take k (sort (concat (map (\<lambda>w. take k (sort (G w))) ws))) = take k (sort (concat (map G ws)))"
proof (induction ws)
  case Nil
  then show ?case by simp
next
  case (Cons w ws)
  let ?R = "concat (map (\<lambda>w. take k (sort (G w))) ws)"
  have "take k (sort (take k (sort (G w)) @ ?R)) = take k (sort (G w @ ?R))"
    by (rule topk_merge_left)
  also have "\<dots> = take k (sort (G w @ take k (sort ?R)))"
    by (rule topk_merge_right [symmetric])
  also have "\<dots> = take k (sort (G w @ take k (sort (concat (map G ws)))))"
    by (simp only: Cons.IH)
  also have "\<dots> = take k (sort (G w @ concat (map G ws)))"
    by (rule topk_merge_right)
  finally show ?case by simp
qed

lemma filter_next:
  "mset (filter (\<lambda>c. h c < n) cs) + mset (filter (\<lambda>c. h c = n) cs) =
   mset (filter (\<lambda>c. h c < Suc n) cs)"
  by (induction cs) (auto simp: less_Suc_eq)

lemma mset_concat_filters:
  "mset (concat (map (\<lambda>w. filter (\<lambda>c. h c = w) cs) [0..<n])) = mset (filter (\<lambda>c. h c < n) cs)"
proof (induction n)
  case 0
  then show ?case by simp
next
  case (Suc n)
  then show ?case using filter_next [of h n cs] by simp
qed

lemma mset_slices:
  assumes "0 < warps g"
  shows "mset (concat (map (\<lambda>w. slice g w cs) [0..<warps g])) = mset cs"
proof -
  have "mset (concat (map (\<lambda>w. slice g w cs) [0..<warps g])) =
        mset (filter (\<lambda>c. (snd c div lanes g) mod warps g < warps g) cs)"
    unfolding slice_def by (rule mset_concat_filters)
  with assms show ?thesis by simp
qed

lemma block_select_key:
  assumes "0 < warps g" and "0 < lanes g"
  shows "map (key dir) (block_select dir q g k row) =
         take k (sort (map (key dir) (candidates row)))"
proof -
  let ?cs = "candidates row"
  let ?G = "\<lambda>w. map (key dir) (slice g w ?cs)"
  have "map (key dir) (block_select dir q g k row) =
        take k (sort (concat (map (\<lambda>w. take k (sort (?G w))) [0..<warps g])))"
    by (simp add: block_select_def best_k_key map_concat comp_def warp_select_key [OF assms(2)])
  also have "\<dots> = take k (sort (concat (map ?G [0..<warps g])))"
    by (rule topk_concat)
  also have "\<dots> = take k (sort (map (key dir) ?cs))"
  proof (rule topk_cong_mset)
    have "concat (map ?G [0..<warps g]) =
          map (key dir) (concat (map (\<lambda>w. slice g w ?cs) [0..<warps g]))"
      by (simp add: map_concat comp_def)
    then show "mset (concat (map ?G [0..<warps g])) = mset (map (key dir) ?cs)"
      using mset_slices [OF assms(1), of ?cs] by simp
  qed
  finally show ?thesis .
qed

lemma sorted_fst: "sorted (xs :: ('a::linorder \<times> 'b::linorder) list) \<Longrightarrow> sorted (map fst xs)"
  by (induction xs) (auto simp: less_eq_prod_def)

lemma fst_sort: "map fst (sort (xs :: ('a::linorder \<times> 'b::linorder) list)) = sort (map fst xs)"
  by (rule properties_for_sort [symmetric]) (simp_all add: sorted_fst)

lemma sort_uminus:
  "sort (map uminus (xs :: 'a::linordered_ab_group_add list)) = map uminus (rev (sort xs))"
proof (rule properties_for_sort)
  show "mset (map uminus (rev (sort xs))) = mset (map uminus xs)" by simp
  have "sorted_wrt (\<lambda>x y. y \<le> x) (rev (sort xs))"
    by (simp add: sorted_wrt_rev)
  then show "sorted (map uminus (rev (sort xs)))"
    by (simp add: sorted_wrt_map)
qed

lemma fst_candidates: "map fst (candidates row) = row"
  by (simp add: candidates_def)

lemma fst_key_Smallest: "map fst (map (key Smallest) cs) = map fst cs"
  by (simp add: key_def)

lemma fst_key_Largest: "map fst (map (key Largest) cs) = map uminus (map fst cs)"
  by (simp add: key_def)

lemma block_select_values:
  assumes "0 < warps g" and "0 < lanes g"
  shows "map fst (block_select dir q g k row) = reference_topk dir k row"
proof -
  let ?R = "block_select dir q g k row"
  have *: "map fst (map (key dir) ?R) = take k (sort (map fst (map (key dir) (candidates row))))"
    by (simp only: block_select_key [OF assms] take_map [symmetric] fst_sort)
  show ?thesis
  proof (cases dir)
    case Smallest
    from * have "map fst ?R = take k (sort row)"
      unfolding Smallest by (simp only: fst_key_Smallest fst_candidates)
    then show ?thesis by (simp add: Smallest reference_topk_def)
  next
    case Largest
    from * have "map uminus (map fst ?R) = take k (map uminus (rev (sort row)))"
      unfolding Largest by (simp only: fst_key_Largest fst_candidates sort_uminus)
    then have "map uminus (map uminus (map fst ?R)) =
        map uminus (take k (map uminus (rev (sort row))))"
      by (rule arg_cong)
    then have "map fst ?R = take k (rev (sort row))"
      by (simp add: take_map comp_def)
    then show ?thesis by (simp add: Largest reference_topk_def)
  qed
qed

lemma key_key: "key dir (key dir c) = c"
  by (cases dir) (simp_all add: key_def)

lemma snd_key: "map snd (map (key dir) cs) = map snd cs"
  by (cases dir) (simp_all add: key_def)

lemma snd_candidates: "map snd (candidates row) = [0..<length row]"
  by (simp add: candidates_def)

lemma candidates_nth: "(v, i) \<in> set (candidates row) \<Longrightarrow> i < length row \<and> row ! i = v"
  by (auto simp: candidates_def in_set_zip)

lemma block_select_eq:
  assumes "0 < warps g" and "0 < lanes g"
  shows "block_select dir q g k row =
         map (key dir) (take k (sort (map (key dir) (candidates row))))"
proof -
  have "map (key dir) (map (key dir) (block_select dir q g k row)) = block_select dir q g k row"
    by (simp add: key_key comp_def)
  then show ?thesis by (simp only: block_select_key [OF assms])
qed

lemma block_select_subset:
  assumes "0 < warps g" and "0 < lanes g"
  shows "set (block_select dir q g k row) \<subseteq> set (candidates row)"
proof
  fix c assume "c \<in> set (block_select dir q g k row)"
  then have "c \<in> key dir ` set (take k (sort (map (key dir) (candidates row))))"
    by (simp add: block_select_eq [OF assms])
  then obtain x where c: "c = key dir x" and "x \<in> set (take k (sort (map (key dir) (candidates row))))"
    by auto
  then have "x \<in> set (sort (map (key dir) (candidates row)))"
    using set_take_subset by fast
  then obtain y where "x = key dir y" and "y \<in> set (candidates row)" by auto
  with c show "c \<in> set (candidates row)" by (simp add: key_key)
qed

lemma block_select_distinct:
  assumes "0 < warps g" and "0 < lanes g"
  shows "distinct (map snd (block_select dir q g k row))"
proof -
  let ?S = "sort (map (key dir) (candidates row))"
  have "mset (map snd ?S) = mset (map snd (map (key dir) (candidates row)))"
    by (simp only: mset_map mset_sort)
  then have "mset (map snd ?S) = mset [0..<length row]"
    by (simp only: snd_key snd_candidates)
  then have "distinct (map snd ?S)"
    using mset_eq_imp_distinct_iff [of "map snd ?S" "[0..<length row]"] by simp
  then have "distinct (take k (map snd ?S))" by (rule distinct_take)
  moreover have "map snd (block_select dir q g k row) = take k (map snd ?S)"
    by (simp only: block_select_eq [OF assms] snd_key take_map)
  ultimately show ?thesis by simp
qed

lemma block_select_all:
  assumes "0 < warps g" and "0 < lanes g" and "length row \<le> k"
  shows "mset (block_select dir q g k row) = mset (candidates row)"
proof -
  have "length (sort (map (key dir) (candidates row))) \<le> k"
    using assms(3) by (simp add: candidates_def)
  then have "block_select dir q g k row = map (key dir) (sort (map (key dir) (candidates row)))"
    by (simp add: block_select_eq [OF assms(1,2)])
  then have "mset (block_select dir q g k row) =
      image_mset (key dir) (image_mset (key dir) (mset (candidates row)))"
    by simp
  then show ?thesis by (simp add: multiset.map_comp comp_def key_key)
qed

lemma length_reference_topk: "length (reference_topk dir k row) = min k (length row)"
  by (cases dir) (simp_all add: reference_topk_def)

text \<open>
  Claim C8. For every row and every requested k, in either direction, for every fan-out
  and every block of at least one warp of at least one thread: the values selected are
  the first k values of the reference full sort of the row in that direction, so their
  multiset is the true top-k multiset; every selected candidate carries the index its
  value has in the row, and no index twice; min k N candidates are selected, all N
  candidates of the row when k is at least N, none when k is 0 and none when the row is
  empty.
\<close>

theorem block_select_topk:
  assumes "0 < warps g" and "0 < lanes g"
  shows "map fst (block_select dir q g k row) = reference_topk dir k row \<and>
     mset (map fst (block_select dir q g k row)) = mset (reference_topk dir k row) \<and>
     (\<forall>(v, i)\<in>set (block_select dir q g k row). i < length row \<and> row ! i = v) \<and>
     distinct (map snd (block_select dir q g k row)) \<and>
     length (block_select dir q g k row) = min k (length row) \<and>
     (length row \<le> k \<longrightarrow> mset (block_select dir q g k row) = mset (candidates row)) \<and>
     (k = 0 \<longrightarrow> block_select dir q g k row = []) \<and>
     (row = [] \<longrightarrow> block_select dir q g k row = [])"
proof -
  let ?R = "block_select dir q g k row"
  have v: "map fst ?R = reference_topk dir k row"
    by (rule block_select_values [OF assms])
  have i: "\<forall>(v, i)\<in>set ?R. i < length row \<and> row ! i = v"
    using block_select_subset [OF assms, of dir q k row] candidates_nth [of _ _ row] by blast
  have d: "distinct (map snd ?R)"
    by (rule block_select_distinct [OF assms])
  have "length (map fst ?R) = min k (length row)"
    by (simp only: v length_reference_topk)
  then have l: "length ?R = min k (length row)" by simp
  have a: "length row \<le> k \<longrightarrow> mset ?R = mset (candidates row)"
    using block_select_all [OF assms] by blast
  from l have z: "(k = 0 \<longrightarrow> ?R = []) \<and> (row = [] \<longrightarrow> ?R = [])" by auto
  from v i d l a z show ?thesis by simp
qed

theorem block_select_topk_witness:
  "0 < warps small_block \<and> 0 < lanes small_block \<and>
   map fst (block_select Largest (fan_out part_000) small_block 3 scenario) = [9, 9, 7] \<and>
   map snd (block_select Largest (fan_out part_000) small_block 3 scenario) = [2, 3, 5] \<and>
   length (block_select Largest (fan_out part_000) small_block 3 scenario) =
     min 3 (length scenario)"
proof -
  have h: "0 < warps small_block" "0 < lanes small_block"
    by (simp_all add: small_block_def)
  have r: "reference_topk Largest 3 scenario = [9, 9, 7]"
    unfolding scenario_def by code_simp
  have s: "map snd (block_select Largest (fan_out part_000) small_block 3 scenario) = [2, 3, 5]"
    unfolding scenario_def small_block_def part_000_def by code_simp
  from block_select_topk [OF h, of Largest "fan_out part_000" 3 scenario] r s h
  show ?thesis by simp
qed

end
